theory Spec2Isabelle
  imports Complex_Main
begin

section \<open>Circular binary search (circ\_bs.py)\<close>

text \<open>
  The function \<^verbatim>\<open>circ_bs(list, target)\<close> of \<^verbatim>\<open>circ_bs.py\<close> searches a list that is
  sorted up to one rotation. Python's integers are unbounded, so indices are \<open>int\<close>;
  the elements are of any linearly ordered type. A subscript \<^verbatim>\<open>list[i]\<close> can raise
  \<^verbatim>\<open>IndexError\<close>, so every read of the list is a fallible step of the model.
\<close>

subsection \<open>Subscripts\<close>

datatype exn = IndexError

text \<open>
  \<^verbatim>\<open>list[i]\<close>: an index from \<open>-len\<close> up to \<open>len - 1\<close> is accepted, a negative one
  counting from the end of the list; any other index raises.
\<close>

definition subscript :: "'a list \<Rightarrow> int \<Rightarrow> exn + 'a" where
  "subscript xs i =
     (if 0 \<le> i \<and> i < int (length xs) then Inr (xs ! nat i)
      else if - int (length xs) \<le> i \<and> i < 0 then Inr (xs ! nat (int (length xs) + i))
      else Inl IndexError)"

text \<open>Sequencing of fallible steps: the first exception ends the computation.\<close>

definition and_then :: "exn + 'a \<Rightarrow> ('a \<Rightarrow> exn + 'b) \<Rightarrow> exn + 'b" where
  "and_then m f = (case m of Inl e \<Rightarrow> Inl e | Inr v \<Rightarrow> f v)"

subsection \<open>The local variables and the loop\<close>

record state =
  lower :: int
  upper :: int
  pos :: int
  found :: bool

text \<open>The value of \<^verbatim>\<open>mid\<close> in an iteration: \<^verbatim>\<open>(upper + lower) // 2\<close> (floor division).\<close>

definition mid_of :: "state \<Rightarrow> int" where
  "mid_of s = (upper s + lower s) div 2"

text \<open>
  One pass through the body of the \<^verbatim>\<open>while\<close> loop. The conditions are evaluated in
  the order of the source, \<^verbatim>\<open>and\<close> evaluates its right operand only when the left one
  holds, and each occurrence of \<^verbatim>\<open>list[...]\<close> is a subscript of its own.
\<close>

definition body :: "'a::linorder list \<Rightarrow> 'a \<Rightarrow> state \<Rightarrow> exn + state" where
  "body xs target s =
     (let mid = mid_of s in
      and_then (subscript xs mid) (\<lambda>at_mid.
      if at_mid = target then Inr (s\<lparr>pos := mid, found := True\<rparr>)
      else
        and_then
          (and_then (subscript xs (lower s)) (\<lambda>at_lower.
             if target \<ge> at_lower
             then and_then (subscript xs mid) (\<lambda>at_mid. Inr (target < at_mid))
             else Inr False))
          (\<lambda>in_left.
        if in_left then Inr (s\<lparr>upper := mid - 1\<rparr>)
        else
          and_then
            (and_then (subscript xs mid) (\<lambda>at_mid.
               if target > at_mid
               then and_then (subscript xs (upper s)) (\<lambda>at_upper. Inr (target \<le> at_upper))
               else Inr False))
            (\<lambda>in_right.
          if in_right then Inr (s\<lparr>lower := mid + 1\<rparr>)
          else
            and_then
              (and_then (subscript xs (lower s)) (\<lambda>at_lower.
                 and_then (subscript xs mid) (\<lambda>at_mid. Inr (at_lower > at_mid))))
              (\<lambda>link_left.
            if link_left then Inr (s\<lparr>upper := mid - 1\<rparr>)
            else Inr (s\<lparr>lower := mid + 1\<rparr>))))))"

text \<open>The loop condition \<^verbatim>\<open>not found and lower <= upper\<close>.\<close>

definition running :: "state \<Rightarrow> bool" where
  "running s \<longleftrightarrow> \<not> found s \<and> lower s \<le> upper s"

text \<open>
  A pass that does not raise either records the hit at \<^verbatim>\<open>mid\<close>, or moves \<^verbatim>\<open>upper\<close>
  below \<^verbatim>\<open>mid\<close>, or moves \<^verbatim>\<open>lower\<close> above \<^verbatim>\<open>mid\<close>, whatever the list holds.
\<close>

lemma body_cases:
  assumes "body xs target s = Inr s'"
  shows "s' = s\<lparr>pos := mid_of s, found := True\<rparr>
       \<or> s' = s\<lparr>upper := mid_of s - 1\<rparr>
       \<or> s' = s\<lparr>lower := mid_of s + 1\<rparr>"
  using assms
  by (auto simp: body_def and_then_def Let_def split: sum.splits if_splits)

text \<open>The measure of the loop: nothing once found, else one more than the window's size.\<close>

definition fuel :: "state \<Rightarrow> nat" where
  "fuel s = (if found s then 0 else nat (upper s - lower s + 2))"

lemma body_fuel:
  assumes "running s" and "body xs target s = Inr s'"
  shows "fuel s' < fuel s"
proof -
  have "lower s \<le> mid_of s" "mid_of s \<le> upper s"
    using assms(1) by (auto simp: running_def mid_of_def)
  with body_cases [OF assms(2)] assms(1) show ?thesis
    by (auto simp: fuel_def running_def)
qed

function circ_loop :: "'a::linorder list \<Rightarrow> 'a \<Rightarrow> state \<Rightarrow> exn + state" where
  "circ_loop xs target s =
     (if running s
      then (case body xs target s of Inl e \<Rightarrow> Inl e | Inr s' \<Rightarrow> circ_loop xs target s')
      else Inr s)"
  by pat_completeness auto
termination
  by (relation "measure (\<lambda>(xs, target, s). fuel s)") (auto simp: body_fuel)

declare circ_loop.simps [simp del]

text \<open>
  The states at the head of the passes the loop executes, in order: an instrumented copy
  of \<open>circ_loop\<close> that records instead of returning. Its length is the number of
  iterations.
\<close>

function circ_trace :: "'a::linorder list \<Rightarrow> 'a \<Rightarrow> state \<Rightarrow> state list" where
  "circ_trace xs target s =
     (if running s
      then s # (case body xs target s of Inl e \<Rightarrow> [] | Inr s' \<Rightarrow> circ_trace xs target s')
      else [])"
  by pat_completeness auto
termination
  by (relation "measure (\<lambda>(xs, target, s). fuel s)") (auto simp: body_fuel)

declare circ_trace.simps [simp del]

text \<open>The state on entry to the loop, after the test \<^verbatim>\<open>size == 0\<close>.\<close>

definition entry :: "'a list \<Rightarrow> state" where
  "entry xs =
     (let size = int (length xs);
          s = \<lparr>lower = 0, upper = size - 1, pos = - 1, found = False\<rparr>
      in if size = 0 then s\<lparr>found := True\<rparr> else s)"

definition circ_bs :: "'a::linorder list \<Rightarrow> 'a \<Rightarrow> exn + int" where
  "circ_bs xs target =
     (case circ_loop xs target (entry xs) of Inl e \<Rightarrow> Inl e | Inr s \<Rightarrow> Inr (pos s))"

text \<open>The number of passes through the loop body in a call.\<close>

definition iterations :: "'a::linorder list \<Rightarrow> 'a \<Rightarrow> nat" where
  "iterations xs target = length (circ_trace xs target (entry xs))"

subsection \<open>The rotation of the specification\<close>

text \<open>
  The specification describes the input as \<open>rotate(S, k)\<close>, the sequence whose element
  \<open>i\<close> is element \<open>(i + k) mod length\<close> of \<open>S\<close>. The script's own test data,
  \<^verbatim>\<open>list[-200:] + list[0:800]\<close>, is such a sequence.
\<close>

definition rotated :: "'a list \<Rightarrow> nat \<Rightarrow> 'a list" where
  "rotated S k = map (\<lambda>i. S ! ((i + k) mod length S)) [0..<length S]"

subsection \<open>A pass of the loop inside the list\<close>

text \<open>
  What a pass computes when every subscript is inside the list, with the reads written
  as plain list accesses. Lemma \<open>body_step\<close> below shows that \<open>body\<close> is this function
  whenever \<open>0 \<le> lower\<close>, \<open>lower \<le> upper\<close> and \<open>upper < len\<close>.
\<close>

definition step :: "'a::linorder list \<Rightarrow> 'a \<Rightarrow> state \<Rightarrow> state" where
  "step xs target s =
     (let mid = mid_of s;
          at_lower = xs ! nat (lower s);
          at_mid = xs ! nat mid;
          at_upper = xs ! nat (upper s)
      in if at_mid = target then s\<lparr>pos := mid, found := True\<rparr>
         else if at_lower \<le> target \<and> target < at_mid then s\<lparr>upper := mid - 1\<rparr>
         else if at_mid < target \<and> target \<le> at_upper then s\<lparr>lower := mid + 1\<rparr>
         else if at_mid < at_lower then s\<lparr>upper := mid - 1\<rparr>
         else s\<lparr>lower := mid + 1\<rparr>)"

text \<open>The window lies inside the list.\<close>

definition inside :: "'a list \<Rightarrow> state \<Rightarrow> bool" where
  "inside xs s \<longleftrightarrow> 0 \<le> lower s \<and> upper s < int (length xs)"

text \<open>
  A list cut at index \<open>p\<close> into two ascending runs, every element of the second run
  strictly below every element of the first: for \<open>i \<le> j\<close>, the elements at \<open>i\<close> and
  \<open>j\<close> are in order unless the cut separates them, and then they are strictly out of
  order.
\<close>

definition cut_sorted :: "'a::linorder list \<Rightarrow> int \<Rightarrow> bool" where
  "cut_sorted xs p \<longleftrightarrow>
     (\<forall>i j. 0 \<le> i \<and> i \<le> j \<and> j < int (length xs) \<longrightarrow>
        (if i < p \<and> p \<le> j then xs ! nat j < xs ! nat i else xs ! nat i \<le> xs ! nat j))"

text \<open>The target is inside the window, or has been found.\<close>

definition holds_target :: "'a list \<Rightarrow> 'a \<Rightarrow> state \<Rightarrow> bool" where
  "holds_target xs target s \<longleftrightarrow>
     (if found s then 0 \<le> pos s \<and> pos s < int (length xs) \<and> xs ! nat (pos s) = target
      else \<exists>j. lower s \<le> j \<and> j \<le> upper s \<and> xs ! nat j = target)"

text \<open>The answer so far is the failure value or the index of an element equal to the target.\<close>

definition sound_pos :: "'a list \<Rightarrow> 'a \<Rightarrow> state \<Rightarrow> bool" where
  "sound_pos xs target s \<longleftrightarrow>
     pos s = - 1 \<or> (0 \<le> pos s \<and> pos s < int (length xs) \<and> xs ! nat (pos s) = target)"

section \<open>Properties of the loop\<close>

lemma subscript_inside:
  "0 \<le> i \<Longrightarrow> i < int (length xs) \<Longrightarrow> subscript xs i = Inr (xs ! nat i)"
  by (simp add: subscript_def)

lemma mid_between:
  assumes "running s"
  shows "lower s \<le> mid_of s" and "mid_of s \<le> upper s"
  using assms by (auto simp: running_def mid_of_def)

lemma body_step:
  assumes "inside xs s" and "running s"
  shows "body xs target s = Inr (step xs target s)"
proof -
  have b: "0 \<le> lower s" "lower s \<le> mid_of s" "mid_of s \<le> upper s"
    "upper s < int (length xs)"
    using assms mid_between by (auto simp: inside_def)
  then have r: "subscript xs (mid_of s) = Inr (xs ! nat (mid_of s))"
    "subscript xs (lower s) = Inr (xs ! nat (lower s))"
    "subscript xs (upper s) = Inr (xs ! nat (upper s))"
    by (auto intro!: subscript_inside)
  show ?thesis
    by (auto simp: body_def step_def and_then_def Let_def r)
qed

lemma step_cases:
  "step xs target s = s\<lparr>pos := mid_of s, found := True\<rparr>
   \<or> step xs target s = s\<lparr>upper := mid_of s - 1\<rparr>
   \<or> step xs target s = s\<lparr>lower := mid_of s + 1\<rparr>"
  by (simp add: step_def Let_def)

lemma step_inside:
  assumes "inside xs s" and "running s"
  shows "inside xs (step xs target s)"
  using step_cases [of xs target s] mid_between [OF assms(2)] assms(1)
  by (auto simp: inside_def)

text \<open>
  The rule for loop invariants: an invariant that a pass inside the list preserves holds
  when the loop ends, and the loop ends without an exception.
\<close>

lemma circ_loop_rule:
  assumes "inside xs s" and "I s"
    and pres: "\<And>s. inside xs s \<Longrightarrow> running s \<Longrightarrow> I s \<Longrightarrow> I (step xs target s)"
  shows "\<exists>s'. circ_loop xs target s = Inr s' \<and> \<not> running s' \<and> I s'"
  using assms(1,2)
proof (induction "fuel s" arbitrary: s rule: less_induct)
  case less
  show ?case
  proof (cases "running s")
    case True
    have b: "body xs target s = Inr (step xs target s)"
      using less.prems(1) True by (rule body_step)
    have "fuel (step xs target s) < fuel s"
      using True b by (rule body_fuel)
    moreover have "inside xs (step xs target s)"
      using less.prems(1) True by (rule step_inside)
    moreover have "I (step xs target s)"
      using less.prems True by (intro pres)
    ultimately have "\<exists>s'. circ_loop xs target (step xs target s) = Inr s' \<and> \<not> running s' \<and> I s'"
      by (rule less.hyps)
    then show ?thesis
      by (subst circ_loop.simps) (simp add: True b)
  next
    case False
    then show ?thesis
      by (subst circ_loop.simps) (simp add: less.prems)
  qed
qed

lemma circ_trace_rule:
  assumes "inside xs s" and "I s"
    and pres: "\<And>s. inside xs s \<Longrightarrow> running s \<Longrightarrow> I s \<Longrightarrow> I (step xs target s)"
  shows "list_all (\<lambda>s. inside xs s \<and> running s \<and> I s) (circ_trace xs target s)"
  using assms(1,2)
proof (induction "fuel s" arbitrary: s rule: less_induct)
  case less
  show ?case
  proof (cases "running s")
    case True
    have b: "body xs target s = Inr (step xs target s)"
      using less.prems(1) True by (rule body_step)
    have "fuel (step xs target s) < fuel s"
      using True b by (rule body_fuel)
    moreover have "inside xs (step xs target s)"
      using less.prems(1) True by (rule step_inside)
    moreover have "I (step xs target s)"
      using less.prems True by (intro pres)
    ultimately have "list_all (\<lambda>s. inside xs s \<and> running s \<and> I s)
        (circ_trace xs target (step xs target s))"
      by (rule less.hyps)
    then show ?thesis
      by (subst circ_trace.simps) (simp add: True b less.prems)
  next
    case False
    then show ?thesis
      by (subst circ_trace.simps) simp
  qed
qed

text \<open>
  The list enters a pass only through the three subscripts \<^verbatim>\<open>list[mid]\<close>,
  \<^verbatim>\<open>list[lower]\<close> and \<^verbatim>\<open>list[upper]\<close>: two lists that agree on them give the
  same pass.
\<close>

lemma body_reads:
  assumes "subscript xs (mid_of s) = subscript ys (mid_of s)"
    and "subscript xs (lower s) = subscript ys (lower s)"
    and "subscript xs (upper s) = subscript ys (upper s)"
  shows "body xs target s = body ys target s"
  unfolding body_def Let_def assms ..

text \<open>The trace and the loop advance together, one pass at a time.\<close>

lemma trace_lockstep:
  assumes "running s" and "body xs target s = Inr s'"
  shows "circ_loop xs target s = circ_loop xs target s'"
    and "circ_trace xs target s = s # circ_trace xs target s'"
  using assms
  by (simp_all add: circ_loop.simps [of xs target s] circ_trace.simps [of xs target s])

lemma inside_entry: "inside xs (entry xs)"
  by (simp add: inside_def entry_def Let_def)

lemma step_sound_pos:
  assumes "inside xs s" and "running s" and "sound_pos xs target s"
  shows "sound_pos xs target (step xs target s)"
proof -
  have "0 \<le> mid_of s" "mid_of s < int (length xs)"
    using assms(1) mid_between [OF assms(2)] by (auto simp: inside_def)
  with assms(3) show ?thesis
    by (auto simp: sound_pos_def step_def Let_def)
qed

lemma step_holds_target:
  assumes cut: "cut_sorted xs p"
    and ins: "inside xs s" and run: "running s" and inv: "holds_target xs target s"
  shows "holds_target xs target (step xs target s)"
proof -
  have nf: "\<not> found s" using run by (simp add: running_def)
  from inv nf obtain j where j: "lower s \<le> j" "j \<le> upper s" "xs ! nat j = target"
    by (auto simp: holds_target_def)
  have b: "0 \<le> lower s" "lower s \<le> mid_of s" "mid_of s \<le> upper s"
    "upper s < int (length xs)"
    using ins mid_between [OF run] by (auto simp: inside_def)
  have ord: "\<And>i k. 0 \<le> i \<Longrightarrow> i \<le> k \<Longrightarrow> k < int (length xs) \<Longrightarrow>
      (if i < p \<and> p \<le> k then xs ! nat k < xs ! nat i else xs ! nat i \<le> xs ! nat k)"
    using cut unfolding cut_sorted_def by blast
  have f1: "if lower s < p \<and> p \<le> mid_of s then xs ! nat (mid_of s) < xs ! nat (lower s)
            else xs ! nat (lower s) \<le> xs ! nat (mid_of s)"
    using b by (intro ord) auto
  have f2: "if mid_of s < p \<and> p \<le> upper s then xs ! nat (upper s) < xs ! nat (mid_of s)
            else xs ! nat (mid_of s) \<le> xs ! nat (upper s)"
    using b by (intro ord) auto
  have f3: "if lower s < p \<and> p \<le> j then target < xs ! nat (lower s)
            else xs ! nat (lower s) \<le> target"
    using ord [of "lower s" j] b j by auto
  have f4: "if j < p \<and> p \<le> upper s then xs ! nat (upper s) < target
            else target \<le> xs ! nat (upper s)"
    using ord [of j "upper s"] b j by auto
  have f5: "j \<le> mid_of s \<Longrightarrow> if j < p \<and> p \<le> mid_of s then xs ! nat (mid_of s) < target
            else target \<le> xs ! nat (mid_of s)"
    using ord [of j "mid_of s"] b j by auto
  have f6: "mid_of s \<le> j \<Longrightarrow> if mid_of s < p \<and> p \<le> j then target < xs ! nat (mid_of s)
            else xs ! nat (mid_of s) \<le> target"
    using ord [of "mid_of s" j] b j by auto
  show ?thesis
  proof (cases "xs ! nat (mid_of s) = target")
    case True
    then show ?thesis using b by (simp add: holds_target_def step_def Let_def)
  next
    case False
    have jm: "j \<noteq> mid_of s" using False j by auto
    show ?thesis
    proof (cases "j < mid_of s")
      case True
      then have "step xs target s = s\<lparr>upper := mid_of s - 1\<rparr>"
        using f1 f2 f3 f4 f5 False b j
        by (auto simp: step_def Let_def split: if_splits)
      then show ?thesis using True j nf by (auto simp: holds_target_def intro!: exI [of _ j])
    next
      case F: False
      then have "step xs target s = s\<lparr>lower := mid_of s + 1\<rparr>"
        using f1 f2 f3 f4 f6 False jm b j
        by (auto simp: step_def Let_def split: if_splits)
      then show ?thesis using F jm j nf by (auto simp: holds_target_def intro!: exI [of _ j])
    qed
  qed
qed

lemma length_rotated: "length (rotated S k) = length S"
  by (simp add: rotated_def)

lemma rotated_append:
  assumes "k \<le> length S"
  shows "rotated S k = drop k S @ take k S"
proof (rule nth_equalityI)
  show "length (rotated S k) = length (drop k S @ take k S)"
    using assms by (simp add: rotated_def)
next
  fix i assume "i < length (rotated S k)"
  then have i: "i < length S" by (simp add: rotated_def)
  show "rotated S k ! i = (drop k S @ take k S) ! i"
  proof (cases "i < length S - k")
    case True
    then show ?thesis using i assms by (simp add: rotated_def nth_append add.commute)
  next
    case False
    then have "i + k = (i - (length S - k)) + length S" and "i - (length S - k) < length S"
      using i assms by auto
    then have "(i + k) mod length S = i - (length S - k)"
      by (metis mod_add_self2 mod_less)
    then show ?thesis using False i assms by (simp add: rotated_def nth_append)
  qed
qed

lemma rotated_0: "rotated S 0 = S"
  using rotated_append [of 0 S] by simp

lemma set_rotated: "k \<le> length S \<Longrightarrow> set (rotated S k) = set S"
  by (metis rotated_append set_append Un_commute append_take_drop_id)

lemma cut_sorted_append:
  assumes "sorted A" and "sorted B" and "\<forall>a\<in>set A. \<forall>b\<in>set B. b < a"
  shows "cut_sorted (A @ B) (int (length A))"
  unfolding cut_sorted_def
proof (intro allI impI)
  fix i j :: int
  assume h: "0 \<le> i \<and> i \<le> j \<and> j < int (length (A @ B))"
  define m n where "m = nat i" and "n = nat j"
  have mn: "m \<le> n" "n < length A + length B" "i = int m" "j = int n"
    using h by (auto simp: m_def n_def)
  have "if m < length A \<and> length A \<le> n
        then (A @ B) ! n < (A @ B) ! m
        else (A @ B) ! m \<le> (A @ B) ! n"
  proof (cases "n < length A")
    case True
    then have "A ! m \<le> A ! n"
      using mn assms(1) by (auto simp: sorted_iff_nth_mono)
    then show ?thesis using True mn by (simp add: nth_append)
  next
    case nB: False
    show ?thesis
    proof (cases "m < length A")
      case True
      have "A ! m \<in> set A" using True by simp
      moreover have "B ! (n - length A) \<in> set B" using nB mn by simp
      ultimately have "B ! (n - length A) < A ! m" using assms(3) by blast
      then show ?thesis using True nB by (simp add: nth_append)
    next
      case False
      then have "B ! (m - length A) \<le> B ! (n - length A)"
        using mn nB assms(2) by (auto simp: sorted_iff_nth_mono)
      then show ?thesis using False nB by (simp add: nth_append)
    qed
  qed
  then show "if i < int (length A) \<and> int (length A) \<le> j
        then (A @ B) ! nat j < (A @ B) ! nat i
        else (A @ B) ! nat i \<le> (A @ B) ! nat j"
    by (simp add: mn)
qed

lemma cut_sorted_rotated:
  assumes "sorted S" and "k \<le> length S"
    and "\<forall>a\<in>set (drop k S). \<forall>b\<in>set (take k S). b < a"
  shows "cut_sorted (rotated S k) (int (length S - k))"
proof -
  have "sorted (take k S @ drop k S)" using assms(1) by simp
  then have "sorted (drop k S)" "sorted (take k S)"
    unfolding sorted_append by auto
  then have "cut_sorted (drop k S @ take k S) (int (length (drop k S)))"
    using assms(3) by (rule cut_sorted_append)
  then show ?thesis using assms(2) by (simp add: rotated_append)
qed

lemma adjacent_cut:
  assumes "sorted S" and "k < length S" and "k = 0 \<or> S ! (k - 1) < S ! k"
  shows "\<forall>a\<in>set (drop k S). \<forall>b\<in>set (take k S). b < a"
proof (intro ballI)
  fix a b assume a: "a \<in> set (drop k S)" and b: "b \<in> set (take k S)"
  then have k: "0 < k" by (cases k) auto
  from a obtain i where i: "i < length S - k" "a = S ! (k + i)"
    by (auto simp: in_set_conv_nth)
  from b obtain j where j: "j < k" "b = S ! j"
    using assms(2) by (auto simp: in_set_conv_nth)
  have "b \<le> S ! (k - 1)" using j assms(1,2) by (auto simp: sorted_iff_nth_mono)
  also have "\<dots> < S ! k" using assms(3) k by simp
  also have "\<dots> \<le> a" using i assms(1,2) by (auto simp: sorted_iff_nth_mono)
  finally show "b < a" .
qed

lemma sound_pos_entry: "sound_pos xs target (entry xs)"
  by (simp add: sound_pos_def entry_def Let_def)

lemma circ_bs_sound:
  "\<exists>r. circ_bs xs target = Inr r
     \<and> (r = - 1 \<or> (0 \<le> r \<and> r < int (length xs) \<and> xs ! nat r = target))"
proof -
  have "\<exists>s'. circ_loop xs target (entry xs) = Inr s' \<and> \<not> running s' \<and> sound_pos xs target s'"
    using inside_entry sound_pos_entry step_sound_pos by (rule circ_loop_rule)
  then show ?thesis
    by (auto simp: circ_bs_def sound_pos_def)
qed

lemma holds_target_entry:
  assumes "target \<in> set xs"
  shows "holds_target xs target (entry xs)"
proof -
  from assms obtain i where i: "i < length xs" "xs ! i = target"
    by (auto simp: in_set_conv_nth)
  then have "0 \<le> int i \<and> int i \<le> int (length xs) - 1 \<and> xs ! nat (int i) = target"
    by auto
  then have "\<exists>j. 0 \<le> j \<and> j \<le> int (length xs) - 1 \<and> xs ! nat j = target"
    by blast
  then show ?thesis using i by (auto simp: holds_target_def entry_def Let_def)
qed

lemma circ_bs_finds:
  assumes "cut_sorted xs p" and "target \<in> set xs"
  shows "\<exists>j. circ_bs xs target = Inr j \<and> 0 \<le> j \<and> j < int (length xs) \<and> xs ! nat j = target"
proof -
  have "\<exists>s'. circ_loop xs target (entry xs) = Inr s' \<and> \<not> running s' \<and> holds_target xs target s'"
    using inside_entry holds_target_entry [OF assms(2)] step_holds_target [OF assms(1)]
    by (rule circ_loop_rule)
  then obtain s' where s': "circ_loop xs target (entry xs) = Inr s'" "\<not> running s'"
    "holds_target xs target s'" by blast
  have "found s'"
  proof (rule ccontr)
    assume "\<not> found s'"
    then show False using s'(2,3) by (auto simp: running_def holds_target_def)
  qed
  then show ?thesis using s'(1,3) by (simp add: circ_bs_def holds_target_def)
qed

lemma trace_holds_target:
  assumes "cut_sorted xs p" and "target \<in> set xs"
  shows "list_all (\<lambda>s. \<exists>j. lower s \<le> j \<and> j \<le> upper s \<and> xs ! nat j = target)
           (circ_trace xs target (entry xs))"
proof -
  have "list_all (\<lambda>s. inside xs s \<and> running s \<and> holds_target xs target s)
          (circ_trace xs target (entry xs))"
    using inside_entry holds_target_entry [OF assms(2)] step_holds_target [OF assms(1)]
    by (rule circ_trace_rule)
  then show ?thesis
    by (auto simp: list_all_iff running_def holds_target_def)
qed

lemma trace_inside:
  "list_all (\<lambda>s. 0 \<le> lower s \<and> lower s \<le> mid_of s \<and> mid_of s \<le> upper s
                  \<and> upper s < int (length xs))
     (circ_trace xs target (entry xs))"
proof -
  have "list_all (\<lambda>s. inside xs s \<and> running s \<and> True) (circ_trace xs target (entry xs))"
    using inside_entry by (rule circ_trace_rule) simp_all
  then show ?thesis
    using mid_between by (auto simp: list_all_iff inside_def)
qed

lemma mid_of_bounds: "2 * mid_of s \<le> upper s + lower s" "upper s + lower s \<le> 2 * mid_of s + 1"
  by (auto simp: mid_of_def)

lemma trace_stopped: "\<not> running s \<Longrightarrow> circ_trace xs target s = []"
  by (subst circ_trace.simps) simp

lemma trace_length:
  "upper s - lower s + 1 \<le> 2 ^ k \<Longrightarrow> length (circ_trace xs target s) \<le> k + 1"
proof (induction k arbitrary: s)
  case 0
  show ?case
  proof (cases "running s")
    case True
    then have eq: "upper s = lower s" "mid_of s = lower s"
      using 0 by (auto simp: running_def mid_of_def)
    have "circ_trace xs target s' = []" if "body xs target s = Inr s'" for s'
      using body_cases [OF that] eq True
      by (intro trace_stopped) (auto simp: running_def)
    then show ?thesis
      by (subst circ_trace.simps) (auto split: sum.splits)
  next
    case False
    then show ?thesis by (simp add: trace_stopped)
  qed
next
  case (Suc k)
  show ?case
  proof (cases "running s")
    case True
    have "length (circ_trace xs target s') \<le> k + 1" if b: "body xs target s = Inr s'" for s'
    proof (cases "found s'")
      case True
      then show ?thesis by (simp add: trace_stopped running_def)
    next
      case False
      have "upper s - lower s + 1 \<le> 2 * 2 ^ k" using Suc.prems by simp
      then have "upper s' - lower s' + 1 \<le> 2 ^ k"
        using body_cases [OF b] False mid_of_bounds [of s] by auto
      then show ?thesis by (rule Suc.IH)
    qed
    then show ?thesis
      by (subst circ_trace.simps) (auto split: sum.splits)
  next
    case False
    then show ?thesis by (simp add: trace_stopped)
  qed
qed

lemma rotated_cut_sorted:
  assumes "sorted S" and "k < max (length S) 1" and "k = 0 \<or> S ! (k - 1) < S ! k"
  shows "cut_sorted (rotated S k) (int (length S - k))"
proof (cases "k = 0")
  case True
  then show ?thesis using assms(1) cut_sorted_rotated [of S 0] by simp
next
  case False
  then have k: "k < length S" using assms(2) by simp
  then have "\<forall>a\<in>set (drop k S). \<forall>b\<in>set (take k S). b < a"
    using assms(1,3) by (intro adjacent_cut)
  then show ?thesis using assms(1) k by (intro cut_sorted_rotated) auto
qed

text \<open>A strictly ascending list has no two equal neighbours, so every rotation of it
  cuts between two different values.\<close>

lemma strict_cut_condition:
  assumes "sorted S" and "distinct S" and "k < max (length S) 1"
  shows "k = 0 \<or> S ! (k - 1) < S ! k"
proof (cases "k = 0")
  case True
  then show ?thesis by simp
next
  case False
  then have k: "k - 1 < k" "k < length S" using assms(3) by auto
  then have "S ! (k - 1) \<le> S ! k"
    using assms(1) by (auto simp: sorted_iff_nth_mono)
  moreover have "S ! (k - 1) \<noteq> S ! k"
    using assms(2) k by (auto simp: nth_eq_iff_index_eq)
  ultimately show ?thesis by (simp add: less_le)
qed

section \<open>The claims\<close>

text \<open>The definitions a concrete run unfolds.\<close>

lemmas run_simps = circ_bs_def entry_def running_def body_def and_then_def
  subscript_def mid_of_def Let_def iterations_def

text \<open>
  Claim C7 (degenerate cases). Searching the empty list returns the failure value
  \<open>-1\<close> without a single pass through the loop body, the only place where elements
  are compared. Searching the one-element list \<open>[x]\<close> for \<open>x\<close> returns index \<open>0\<close>,
  and searching it for any other value returns \<open>-1\<close>.
\<close>

theorem circ_bs_degenerate:
  "circ_bs [] target = Inr (- 1)
   \<and> iterations [] target = 0
   \<and> circ_bs [x] x = Inr 0
   \<and> (y \<noteq> x \<longrightarrow> circ_bs [x] y = Inr (- 1))"
  by (simp add: run_simps circ_loop.simps circ_trace.simps)

theorem circ_bs_degenerate_witness:
  "circ_bs [] (7::int) = Inr (- 1)
   \<and> iterations [] (7::int) = 0
   \<and> circ_bs [1::int] 1 = Inr 0
   \<and> (2::int) \<noteq> 1 \<and> circ_bs [1::int] 2 = Inr (- 1)"
  using circ_bs_degenerate [of "7::int" "1::int" "2::int"] by simp

text \<open>
  Claim C8 (concrete scenarios). On \<open>[6,7,8,1,2,3,4,5]\<close> the search returns \<open>3\<close> for
  target \<open>1\<close>, \<open>2\<close> for target \<open>8\<close> and \<open>7\<close> for target \<open>5\<close>; on the list of 1000
  elements \<open>800..999\<close> followed by \<open>0..799\<close> it returns \<open>200\<close> for target \<open>0\<close>.
\<close>

theorem circ_bs_scenarios:
  "circ_bs [6, 7, 8, 1, 2, 3, 4, 5 :: int] 1 = Inr 3
   \<and> circ_bs [6, 7, 8, 1, 2, 3, 4, 5 :: int] 8 = Inr 2
   \<and> circ_bs [6, 7, 8, 1, 2, 3, 4, 5 :: int] 5 = Inr 7
   \<and> length ([800..999] @ [0..799]) = 1000
   \<and> circ_bs ([800..999] @ [0..799]) 0 = Inr 200"
proof -
  have n: "([800..999] @ [0..799]) ! k = (if k < 200 then 800 + int k else int k - 200)"
    if "k < 1000" for k
    using that by (simp add: nth_append del: upto_rec_numeral)
  have a: "circ_bs [6, 7, 8, 1, 2, 3, 4, 5 :: int] 1 = Inr 3"
    by (simp add: run_simps circ_loop.simps)
  have b: "circ_bs [6, 7, 8, 1, 2, 3, 4, 5 :: int] 8 = Inr 2"
    by (simp add: run_simps circ_loop.simps)
  have c: "circ_bs [6, 7, 8, 1, 2, 3, 4, 5 :: int] 5 = Inr 7"
    by (simp add: run_simps circ_loop.simps)
  have d: "length ([800..999] @ [0..799]) = 1000"
    by (simp del: upto_rec_numeral)
  have e: "circ_bs ([800..999] @ [0..799]) 0 = Inr 200"
    by (simp add: run_simps circ_loop.simps n del: upto_rec_numeral)
  show ?thesis using a b c d e by blast
qed

text \<open>
  Claim C3 (totality, for every list and every target, sorted or not). The call returns
  a value, so it terminates and raises nothing, and the value is \<open>-1\<close> or an index of
  the list. At the head of every pass the loop executes, \<open>lower\<close>, \<open>mid\<close> and \<open>upper\<close>,
  the only subscripts the body uses (lemma \<open>body_reads\<close>), lie inside the list:
  \<open>0 \<le> lower \<le> mid \<le> upper < len\<close>. The loop ends because a pass that does not find
  the target leaves a strictly smaller window: \<open>upper - lower\<close> decreases, from any
  state whatever.
\<close>

theorem circ_bs_total:
  "(\<exists>r. circ_bs xs target = Inr r \<and> (r = - 1 \<or> (0 \<le> r \<and> r < int (length xs))))
   \<and> list_all (\<lambda>s. 0 \<le> lower s \<and> lower s \<le> mid_of s \<and> mid_of s \<le> upper s
                     \<and> upper s < int (length xs))
         (circ_trace xs target (entry xs))
   \<and> (running s \<and> body xs target s = Inr s' \<and> \<not> found s'
        \<longrightarrow> upper s' - lower s' < upper s - lower s)"
proof (intro conjI impI)
  show "\<exists>r. circ_bs xs target = Inr r \<and> (r = - 1 \<or> (0 \<le> r \<and> r < int (length xs)))"
    using circ_bs_sound [of xs target] by blast
next
  show "list_all (\<lambda>s. 0 \<le> lower s \<and> lower s \<le> mid_of s \<and> mid_of s \<le> upper s
                     \<and> upper s < int (length xs))
         (circ_trace xs target (entry xs))"
    by (rule trace_inside)
next
  assume h: "running s \<and> body xs target s = Inr s' \<and> \<not> found s'"
  then have "lower s \<le> mid_of s" "mid_of s \<le> upper s"
    using mid_between by auto
  moreover have "s' = s\<lparr>pos := mid_of s, found := True\<rparr>
       \<or> s' = s\<lparr>upper := mid_of s - 1\<rparr> \<or> s' = s\<lparr>lower := mid_of s + 1\<rparr>"
    using h body_cases [of xs target s s'] by blast
  ultimately show "upper s' - lower s' < upper s - lower s"
    using h by auto
qed

theorem circ_bs_total_witness:
  "circ_bs [7, 3, 9, 1 :: int] 7 = Inr 0
   \<and> list_all (\<lambda>s. 0 \<le> lower s \<and> lower s \<le> mid_of s \<and> mid_of s \<le> upper s
                     \<and> upper s < int (length [7, 3, 9, 1 :: int]))
         (circ_trace [7, 3, 9, 1 :: int] 7 (entry [7, 3, 9, 1 :: int]))
   \<and> circ_trace [7, 3, 9, 1 :: int] 7 (entry [7, 3, 9, 1 :: int])
       = [\<lparr>lower = 0, upper = 3, pos = - 1, found = False\<rparr>,
          \<lparr>lower = 0, upper = 0, pos = - 1, found = False\<rparr>]
   \<and> running \<lparr>lower = 0, upper = 3, pos = - 1, found = False\<rparr>
   \<and> body [7, 3, 9, 1 :: int] 7 \<lparr>lower = 0, upper = 3, pos = - 1, found = False\<rparr>
       = Inr \<lparr>lower = 0, upper = 0, pos = - 1, found = False\<rparr>
   \<and> \<not> found \<lparr>lower = 0, upper = 0, pos = - 1, found = False\<rparr>
   \<and> upper \<lparr>lower = 0, upper = 0, pos = - 1, found = False\<rparr>
       - lower \<lparr>lower = 0, upper = 0, pos = - 1, found = False\<rparr>
     < upper \<lparr>lower = 0, upper = 3, pos = - 1, found = False\<rparr>
       - lower \<lparr>lower = 0, upper = 3, pos = - 1, found = False\<rparr>"
proof -
  have r: "circ_bs [7, 3, 9, 1 :: int] 7 = Inr 0"
    by (simp add: run_simps circ_loop.simps)
  have t: "circ_trace [7, 3, 9, 1 :: int] 7 (entry [7, 3, 9, 1 :: int])
       = [\<lparr>lower = 0, upper = 3, pos = - 1, found = False\<rparr>,
          \<lparr>lower = 0, upper = 0, pos = - 1, found = False\<rparr>]"
    by (simp add: run_simps circ_trace.simps)
  have h: "running \<lparr>lower = 0, upper = 3, pos = - 1, found = False\<rparr>
     \<and> body [7, 3, 9, 1 :: int] 7 \<lparr>lower = 0, upper = 3, pos = - 1, found = False\<rparr>
       = Inr \<lparr>lower = 0, upper = 0, pos = - 1, found = False\<rparr>
     \<and> \<not> found \<lparr>lower = 0, upper = 0, pos = - 1, found = False\<rparr>"
    by (simp add: run_simps)
  show ?thesis
    using r t h
      circ_bs_total [of "[7, 3, 9, 1 :: int]" 7
        "\<lparr>lower = 0, upper = 3, pos = - 1, found = False\<rparr>"
        "\<lparr>lower = 0, upper = 0, pos = - 1, found = False\<rparr>"]
    by blast
qed

text \<open>
  Claim C9 (iteration bound). For a list of \<open>n \<ge> 1\<close> elements and any target, the loop
  body is executed at most \<open>\<lceil>log\<^sub>2 n\<rceil> + 1\<close> times.
\<close>

theorem iterations_bound:
  assumes "1 \<le> length xs"
  shows "iterations xs target \<le> nat \<lceil>log 2 (real (length xs))\<rceil> + 1"
proof -
  have "real (length xs) \<le> 2 ^ nat \<lceil>log 2 (real (length xs))\<rceil>"
    by (rule power_of_nat_log_ge) simp
  then have "int (length xs) \<le> 2 ^ nat \<lceil>log 2 (real (length xs))\<rceil>"
    by (metis of_int_le_iff of_int_numeral of_int_of_nat_eq of_int_power)
  then have "upper (entry xs) - lower (entry xs) + 1 \<le> 2 ^ nat \<lceil>log 2 (real (length xs))\<rceil>"
    by (simp add: entry_def Let_def)
  then show ?thesis unfolding iterations_def by (rule trace_length)
qed

theorem iterations_bound_witness:
  "1 \<le> length [6, 7, 8, 1, 2, 3, 4, 5 :: int]
   \<and> iterations [6, 7, 8, 1, 2, 3, 4, 5 :: int] 5 = 4
   \<and> iterations [6, 7, 8, 1, 2, 3, 4, 5 :: int] 5
       \<le> nat \<lceil>log 2 (real (length [6, 7, 8, 1, 2, 3, 4, 5 :: int]))\<rceil> + 1"
proof -
  have h: "1 \<le> length [6, 7, 8, 1, 2, 3, 4, 5 :: int]" by simp
  have i: "iterations [6, 7, 8, 1, 2, 3, 4, 5 :: int] 5 = 4"
    by (simp add: run_simps circ_trace.simps)
  show ?thesis using h i iterations_bound [OF h, of 5] by blast
qed

text \<open>
  Claim C10 (soundness on any input). For every list, sorted or not, and every target,
  a result other than \<open>-1\<close> is an index \<open>i\<close> with \<open>0 \<le> i < len\<close> whose element equals
  the target; so when no element equals the target the result is \<open>-1\<close>.
\<close>

theorem circ_bs_sound_any:
  "\<exists>r. circ_bs xs target = Inr r
      \<and> (r \<noteq> - 1 \<longrightarrow> 0 \<le> r \<and> r < int (length xs) \<and> xs ! nat r = target)
      \<and> (target \<notin> set xs \<longrightarrow> r = - 1)"
proof -
  obtain r where r: "circ_bs xs target = Inr r"
    "r = - 1 \<or> (0 \<le> r \<and> r < int (length xs) \<and> xs ! nat r = target)"
    using circ_bs_sound [of xs target] by blast
  have "r = - 1" if "target \<notin> set xs"
  proof (rule ccontr)
    assume "r \<noteq> - 1"
    then have "nat r < length xs" "xs ! nat r = target" using r(2) by auto
    then have "target \<in> set xs" using nth_mem by blast
    then show False using that by simp
  qed
  then show ?thesis using r by blast
qed

theorem circ_bs_sound_any_witness:
  "circ_bs [7, 3, 9, 1 :: int] 7 = Inr 0
   \<and> (0::int) \<noteq> - 1
   \<and> (0::int) < int (length [7, 3, 9, 1 :: int])
   \<and> [7, 3, 9, 1 :: int] ! nat 0 = 7
   \<and> (4::int) \<notin> set [7, 3, 9, 1]
   \<and> circ_bs [7, 3, 9, 1 :: int] 4 = Inr (- 1)"
proof -
  have a: "circ_bs [7, 3, 9, 1 :: int] 7 = Inr 0"
    by (simp add: run_simps circ_loop.simps)
  have b: "(4::int) \<notin> set [7, 3, 9, 1]" by simp
  show ?thesis
    using a b circ_bs_sound_any [of "[7, 3, 9, 1 :: int]" 7]
      circ_bs_sound_any [of "[7, 3, 9, 1 :: int]" 4]
    by auto
qed

text \<open>
  Claim C2 (absence). On a rotation of a strictly ascending list (ascending, with no
  value repeated), a target equal to no element yields the failure value \<open>-1\<close>.
\<close>

theorem absent_on_strict_rotation:
  assumes "sorted S" and "distinct S" and "k < max (length S) 1"
    and "target \<notin> set (rotated S k)"
  shows "circ_bs (rotated S k) target = Inr (- 1)"
proof -
  obtain r where r: "circ_bs (rotated S k) target = Inr r"
    "r = - 1 \<or> (0 \<le> r \<and> r < int (length (rotated S k)) \<and> rotated S k ! nat r = target)"
    using circ_bs_sound [of "rotated S k" target] by blast
  have "r = - 1"
  proof (rule ccontr)
    assume "r \<noteq> - 1"
    then have "nat r < length (rotated S k)" "rotated S k ! nat r = target"
      using r(2) by auto
    then have "target \<in> set (rotated S k)" using nth_mem by blast
    then show False using assms(4) by simp
  qed
  then show ?thesis using r(1) by simp
qed

theorem absent_on_strict_rotation_witness:
  "sorted [1, 2, 3, 4, 5, 6, 7, 8 :: int]
   \<and> distinct [1, 2, 3, 4, 5, 6, 7, 8 :: int]
   \<and> (5::nat) < max (length [1, 2, 3, 4, 5, 6, 7, 8 :: int]) 1
   \<and> rotated [1, 2, 3, 4, 5, 6, 7, 8 :: int] 5 = [6, 7, 8, 1, 2, 3, 4, 5]
   \<and> (9::int) \<notin> set (rotated [1, 2, 3, 4, 5, 6, 7, 8 :: int] 5)
   \<and> circ_bs (rotated [1, 2, 3, 4, 5, 6, 7, 8 :: int] 5) 9 = Inr (- 1)"
proof -
  have h1: "sorted [1, 2, 3, 4, 5, 6, 7, 8 :: int]" by simp
  have h2: "distinct [1, 2, 3, 4, 5, 6, 7, 8 :: int]" by simp
  have h3: "(5::nat) < max (length [1, 2, 3, 4, 5, 6, 7, 8 :: int]) 1" by simp
  have r: "rotated [1, 2, 3, 4, 5, 6, 7, 8 :: int] 5 = [6, 7, 8, 1, 2, 3, 4, 5]"
    by (simp add: rotated_append)
  have h4: "(9::int) \<notin> set (rotated [1, 2, 3, 4, 5, 6, 7, 8 :: int] 5)"
    by (simp add: r)
  show ?thesis
    using h1 h2 h3 r h4 absent_on_strict_rotation [OF h1 h2 h3 h4] by blast
qed

text \<open>
  Claim C6 (unrotated lists). A plain ascending list, which is its own rotation by
  \<open>k = 0\<close>, is searched as binary search does: a target equal to some element yields an
  index of an element equal to it, and a target equal to no element yields \<open>-1\<close>.
  Repeated values are allowed.
\<close>

theorem plain_sorted_search:
  assumes "sorted S"
  shows "rotated S 0 = S
   \<and> (target \<in> set S \<longrightarrow>
        (\<exists>j. circ_bs S target = Inr j \<and> 0 \<le> j \<and> j < int (length S) \<and> S ! nat j = target))
   \<and> (target \<notin> set S \<longrightarrow> circ_bs S target = Inr (- 1))"
proof (intro conjI impI)
  show "rotated S 0 = S" by (rule rotated_0)
next
  assume "target \<in> set S"
  moreover have "cut_sorted S (int (length S - 0))"
    using rotated_cut_sorted [of S 0] assms by (simp add: rotated_0)
  ultimately show "\<exists>j. circ_bs S target = Inr j \<and> 0 \<le> j \<and> j < int (length S) \<and> S ! nat j = target"
    by (intro circ_bs_finds)
next
  assume n: "target \<notin> set S"
  obtain r where r: "circ_bs S target = Inr r"
    "r = - 1 \<or> (0 \<le> r \<and> r < int (length S) \<and> S ! nat r = target)"
    using circ_bs_sound [of S target] by blast
  have "r = - 1"
  proof (rule ccontr)
    assume "r \<noteq> - 1"
    then have "nat r < length S" "S ! nat r = target" using r(2) by auto
    then have "target \<in> set S" using nth_mem by blast
    then show False using n by simp
  qed
  then show "circ_bs S target = Inr (- 1)" using r(1) by simp
qed

theorem plain_sorted_search_witness:
  "sorted [1, 2, 2, 3 :: int]
   \<and> rotated [1, 2, 2, 3 :: int] 0 = [1, 2, 2, 3]
   \<and> (2::int) \<in> set [1, 2, 2, 3]
   \<and> circ_bs [1, 2, 2, 3 :: int] 2 = Inr 1
   \<and> [1, 2, 2, 3 :: int] ! nat 1 = 2
   \<and> (5::int) \<notin> set [1, 2, 2, 3]
   \<and> circ_bs [1, 2, 2, 3 :: int] 5 = Inr (- 1)"
proof -
  have h: "sorted [1, 2, 2, 3 :: int]" by simp
  have a: "circ_bs [1, 2, 2, 3 :: int] 2 = Inr 1"
    by (simp add: run_simps circ_loop.simps)
  have b: "(2::int) \<in> set [1, 2, 2, 3]" "(5::int) \<notin> set [1, 2, 2, 3]"
    "[1, 2, 2, 3 :: int] ! nat 1 = 2"
    by simp_all
  show ?thesis
    using h a b plain_sorted_search [OF h, of 2] plain_sorted_search [OF h, of 5]
    by auto
qed

text \<open>
  Claim C1 (every element of a rotated list is found), as amended. Let \<open>S\<close> be
  ascending, repeated values allowed, and let the rotation amount \<open>k < max(n, 1)\<close> not
  cut between two equal elements: \<open>k = 0\<close> or \<open>S[k-1] < S[k]\<close>, which every \<open>k\<close>
  satisfies when \<open>S\<close> is strictly ascending (lemma \<open>strict_cut_condition\<close>). Then for
  every index \<open>i\<close> of \<open>S\<close> the search of \<open>rotated S k\<close> for \<open>S[i]\<close> returns an index
  \<open>j\<close>, not the failure value, with \<open>rotated S k\<close> holding \<open>S[i]\<close> at \<open>j\<close>.
\<close>

theorem rotation_finds_each_element:
  assumes "sorted S" and "k < max (length S) 1" and "k = 0 \<or> S ! (k - 1) < S ! k"
    and "i < length S"
  shows "\<exists>j. circ_bs (rotated S k) (S ! i) = Inr j \<and> j \<noteq> - 1
            \<and> 0 \<le> j \<and> j < int (length S) \<and> rotated S k ! nat j = S ! i"
proof -
  have cut: "cut_sorted (rotated S k) (int (length S - k))"
    using assms(1-3) by (rule rotated_cut_sorted)
  have "k \<le> length S" using assms(2) by auto
  then have "S ! i \<in> set (rotated S k)"
    using assms(4) by (simp add: set_rotated)
  with cut have "\<exists>j. circ_bs (rotated S k) (S ! i) = Inr j \<and> 0 \<le> j
      \<and> j < int (length (rotated S k)) \<and> rotated S k ! nat j = S ! i"
    by (rule circ_bs_finds)
  then show ?thesis by (auto simp: length_rotated)
qed

theorem rotation_finds_each_element_witness:
  "sorted [1, 2, 2, 3, 3, 4 :: int]
   \<and> (3::nat) < max (length [1, 2, 2, 3, 3, 4 :: int]) 1
   \<and> [1, 2, 2, 3, 3, 4 :: int] ! (3 - 1) < [1, 2, 2, 3, 3, 4] ! 3
   \<and> (1::nat) < length [1, 2, 2, 3, 3, 4 :: int]
   \<and> rotated [1, 2, 2, 3, 3, 4 :: int] 3 = [3, 3, 4, 1, 2, 2]
   \<and> circ_bs (rotated [1, 2, 2, 3, 3, 4 :: int] 3) ([1, 2, 2, 3, 3, 4] ! 1) = Inr 4
   \<and> rotated [1, 2, 2, 3, 3, 4 :: int] 3 ! nat 4 = [1, 2, 2, 3, 3, 4] ! 1"
proof -
  have h1: "sorted [1, 2, 2, 3, 3, 4 :: int]" by simp
  have h2: "(3::nat) < max (length [1, 2, 2, 3, 3, 4 :: int]) 1" by simp
  have h3: "[1, 2, 2, 3, 3, 4 :: int] ! (3 - 1) < [1, 2, 2, 3, 3, 4] ! 3" by simp
  have h4: "(1::nat) < length [1, 2, 2, 3, 3, 4 :: int]" by simp
  have r: "rotated [1, 2, 2, 3, 3, 4 :: int] 3 = [3, 3, 4, 1, 2, 2]"
    by (simp add: rotated_append)
  have v: "circ_bs (rotated [1, 2, 2, 3, 3, 4 :: int] 3) ([1, 2, 2, 3, 3, 4] ! 1) = Inr 4"
    by (simp add: r run_simps circ_loop.simps)
  show ?thesis
    using h1 h2 h3 h4 r v
      rotation_finds_each_element [OF h1 h2 disjI2 [OF h3] h4]
    by auto
qed

text \<open>
  Without the condition on the cut the statement of C1 fails: \<open>[1,2,2,2,2]\<close> is
  ascending, its rotation by \<open>4\<close> is \<open>[2,1,2,2,2]\<close>, and the search for its element
  \<open>1\<close> returns \<open>-1\<close>. The first pass reads \<open>2\<close> at \<open>lower\<close> and at \<open>mid\<close>, takes the
  link to be on the right, and drops the half that holds \<open>1\<close>.
\<close>

theorem equal_values_across_cut_counterexample:
  "sorted [1, 2, 2, 2, 2 :: int]
   \<and> (4::nat) < max (length [1, 2, 2, 2, 2 :: int]) 1
   \<and> (0::nat) < length [1, 2, 2, 2, 2 :: int]
   \<and> rotated [1, 2, 2, 2, 2 :: int] 4 = [2, 1, 2, 2, 2]
   \<and> [1, 2, 2, 2, 2 :: int] ! 0 = 1
   \<and> circ_bs (rotated [1, 2, 2, 2, 2 :: int] 4) ([1, 2, 2, 2, 2] ! 0) = Inr (- 1)"
proof -
  have r: "rotated [1, 2, 2, 2, 2 :: int] 4 = [2, 1, 2, 2, 2]"
    by (simp add: rotated_append)
  have v: "circ_bs (rotated [1, 2, 2, 2, 2 :: int] 4) ([1, 2, 2, 2, 2] ! 0) = Inr (- 1)"
    by (simp add: r run_simps circ_loop.simps)
  show ?thesis using r v by simp
qed

text \<open>
  Claim C4 (the window keeps the target), as amended. Under the same condition on the
  rotation (\<open>S\<close> ascending, \<open>k = 0\<close> or \<open>S[k-1] < S[k]\<close>) and for a target that occurs in
  the list, at the head of every pass the loop executes the window \<open>[lower, upper]\<close>
  lies inside the list and contains an index whose element equals the target.
\<close>

theorem window_holds_target:
  assumes "sorted S" and "k < max (length S) 1" and "k = 0 \<or> S ! (k - 1) < S ! k"
    and "target \<in> set S"
  shows "list_all
           (\<lambda>s. 0 \<le> lower s \<and> upper s < int (length S)
                \<and> (\<exists>j. lower s \<le> j \<and> j \<le> upper s \<and> rotated S k ! nat j = target))
           (circ_trace (rotated S k) target (entry (rotated S k)))"
proof -
  have cut: "cut_sorted (rotated S k) (int (length S - k))"
    using assms(1-3) by (rule rotated_cut_sorted)
  have "k \<le> length S" using assms(2) by auto
  then have "target \<in> set (rotated S k)"
    using assms(4) by (simp add: set_rotated)
  with cut have "list_all (\<lambda>s. \<exists>j. lower s \<le> j \<and> j \<le> upper s \<and> rotated S k ! nat j = target)
      (circ_trace (rotated S k) target (entry (rotated S k)))"
    by (rule trace_holds_target)
  then show ?thesis
    using trace_inside [of "rotated S k" target]
    by (auto simp: list_all_iff length_rotated)
qed

theorem window_holds_target_witness:
  "sorted [1, 2, 2, 3, 3, 4 :: int]
   \<and> (3::nat) < max (length [1, 2, 2, 3, 3, 4 :: int]) 1
   \<and> [1, 2, 2, 3, 3, 4 :: int] ! (3 - 1) < [1, 2, 2, 3, 3, 4] ! 3
   \<and> (2::int) \<in> set [1, 2, 2, 3, 3, 4]
   \<and> rotated [1, 2, 2, 3, 3, 4 :: int] 3 = [3, 3, 4, 1, 2, 2]
   \<and> circ_trace (rotated [1, 2, 2, 3, 3, 4 :: int] 3) 2 (entry (rotated [1, 2, 2, 3, 3, 4 :: int] 3))
       = [\<lparr>lower = 0, upper = 5, pos = - 1, found = False\<rparr>,
          \<lparr>lower = 3, upper = 5, pos = - 1, found = False\<rparr>]
   \<and> list_all
        (\<lambda>s. 0 \<le> lower s \<and> upper s < int (length [1, 2, 2, 3, 3, 4 :: int])
             \<and> (\<exists>j. lower s \<le> j \<and> j \<le> upper s
                    \<and> rotated [1, 2, 2, 3, 3, 4 :: int] 3 ! nat j = 2))
        (circ_trace (rotated [1, 2, 2, 3, 3, 4 :: int] 3) 2
           (entry (rotated [1, 2, 2, 3, 3, 4 :: int] 3)))"
proof -
  have h1: "sorted [1, 2, 2, 3, 3, 4 :: int]" by simp
  have h2: "(3::nat) < max (length [1, 2, 2, 3, 3, 4 :: int]) 1" by simp
  have h3: "[1, 2, 2, 3, 3, 4 :: int] ! (3 - 1) < [1, 2, 2, 3, 3, 4] ! 3" by simp
  have h4: "(2::int) \<in> set [1, 2, 2, 3, 3, 4]" by simp
  have r: "rotated [1, 2, 2, 3, 3, 4 :: int] 3 = [3, 3, 4, 1, 2, 2]"
    by (simp add: rotated_append)
  have t: "circ_trace (rotated [1, 2, 2, 3, 3, 4 :: int] 3) 2
        (entry (rotated [1, 2, 2, 3, 3, 4 :: int] 3))
       = [\<lparr>lower = 0, upper = 5, pos = - 1, found = False\<rparr>,
          \<lparr>lower = 3, upper = 5, pos = - 1, found = False\<rparr>]"
    by (simp add: r run_simps circ_trace.simps)
  show ?thesis
    using h1 h2 h3 h4 r t window_holds_target [OF h1 h2 disjI2 [OF h3] h4]
    by blast
qed

text \<open>
  Without the condition the invariant of C4 fails: in \<open>[5,3,5,5,5,5,5]\<close>, the rotation
  by \<open>6\<close> of the ascending \<open>[3,5,5,5,5,5,5]\<close>, the second pass of the search for \<open>3\<close>
  starts with the window \<open>[4, 6]\<close>, which holds no \<open>3\<close>.
\<close>

theorem window_loses_target_counterexample:
  "sorted [3, 5, 5, 5, 5, 5, 5 :: int]
   \<and> (6::nat) < max (length [3, 5, 5, 5, 5, 5, 5 :: int]) 1
   \<and> rotated [3, 5, 5, 5, 5, 5, 5 :: int] 6 = [5, 3, 5, 5, 5, 5, 5]
   \<and> [5, 3, 5, 5, 5, 5, 5 :: int] ! 1 = 3
   \<and> circ_trace [5, 3, 5, 5, 5, 5, 5 :: int] 3 (entry [5, 3, 5, 5, 5, 5, 5 :: int])
       = [\<lparr>lower = 0, upper = 6, pos = - 1, found = False\<rparr>,
          \<lparr>lower = 4, upper = 6, pos = - 1, found = False\<rparr>,
          \<lparr>lower = 6, upper = 6, pos = - 1, found = False\<rparr>]
   \<and> [5, 3, 5, 5, 5, 5, 5 :: int] ! 4 \<noteq> 3
   \<and> [5, 3, 5, 5, 5, 5, 5 :: int] ! 5 \<noteq> 3
   \<and> [5, 3, 5, 5, 5, 5, 5 :: int] ! 6 \<noteq> 3"
proof -
  have r: "rotated [3, 5, 5, 5, 5, 5, 5 :: int] 6 = [5, 3, 5, 5, 5, 5, 5]"
    by (simp add: rotated_append)
  have t: "circ_trace [5, 3, 5, 5, 5, 5, 5 :: int] 3 (entry [5, 3, 5, 5, 5, 5, 5 :: int])
       = [\<lparr>lower = 0, upper = 6, pos = - 1, found = False\<rparr>,
          \<lparr>lower = 4, upper = 6, pos = - 1, found = False\<rparr>,
          \<lparr>lower = 6, upper = 6, pos = - 1, found = False\<rparr>]"
    by (simp add: run_simps circ_trace.simps)
  show ?thesis using r t by simp
qed

text \<open>
  Claim C5 (lists with repeated values), as amended. On a rotation of an ascending list
  in which values may repeat, provided the rotation does not cut between two equal
  elements (\<open>k = 0\<close> or \<open>S[k-1] < S[k]\<close>), the search for a target equal to at least one
  element returns an index whose element equals the target.
\<close>

theorem rotation_with_duplicates_finds:
  assumes "sorted S" and "k < max (length S) 1" and "k = 0 \<or> S ! (k - 1) < S ! k"
    and "target \<in> set (rotated S k)"
  shows "\<exists>i. circ_bs (rotated S k) target = Inr i \<and> 0 \<le> i
            \<and> i < int (length (rotated S k)) \<and> rotated S k ! nat i = target"
proof -
  have "cut_sorted (rotated S k) (int (length S - k))"
    using assms(1-3) by (rule rotated_cut_sorted)
  then show ?thesis using assms(4) by (rule circ_bs_finds)
qed

theorem rotation_with_duplicates_finds_witness:
  "sorted [1, 1, 2, 2, 3, 3 :: int]
   \<and> (2::nat) < max (length [1, 1, 2, 2, 3, 3 :: int]) 1
   \<and> [1, 1, 2, 2, 3, 3 :: int] ! (2 - 1) < [1, 1, 2, 2, 3, 3] ! 2
   \<and> rotated [1, 1, 2, 2, 3, 3 :: int] 2 = [2, 2, 3, 3, 1, 1]
   \<and> (3::int) \<in> set (rotated [1, 1, 2, 2, 3, 3 :: int] 2)
   \<and> circ_bs (rotated [1, 1, 2, 2, 3, 3 :: int] 2) 3 = Inr 2
   \<and> rotated [1, 1, 2, 2, 3, 3 :: int] 2 ! nat 2 = 3"
proof -
  have h1: "sorted [1, 1, 2, 2, 3, 3 :: int]" by simp
  have h2: "(2::nat) < max (length [1, 1, 2, 2, 3, 3 :: int]) 1" by simp
  have h3: "[1, 1, 2, 2, 3, 3 :: int] ! (2 - 1) < [1, 1, 2, 2, 3, 3] ! 2" by simp
  have r: "rotated [1, 1, 2, 2, 3, 3 :: int] 2 = [2, 2, 3, 3, 1, 1]"
    by (simp add: rotated_append)
  have h4: "(3::int) \<in> set (rotated [1, 1, 2, 2, 3, 3 :: int] 2)"
    by (simp add: r)
  have v: "circ_bs (rotated [1, 1, 2, 2, 3, 3 :: int] 2) 3 = Inr 2"
    by (simp add: r run_simps circ_loop.simps)
  show ?thesis
    using h1 h2 h3 r h4 v
      rotation_with_duplicates_finds [OF h1 h2 disjI2 [OF h3] h4]
    by auto
qed

text \<open>
  For an arbitrary rotation of a list with repeated values the statement of C5 fails:
  \<open>[0,1,0,0,0]\<close> is the rotation by \<open>3\<close> of the ascending \<open>[0,0,0,0,1]\<close>, its element
  at index \<open>1\<close> is \<open>1\<close>, and the search for \<open>1\<close> returns \<open>-1\<close>.
\<close>

theorem duplicates_missed_counterexample:
  "sorted [0, 0, 0, 0, 1 :: int]
   \<and> (3::nat) < max (length [0, 0, 0, 0, 1 :: int]) 1
   \<and> rotated [0, 0, 0, 0, 1 :: int] 3 = [0, 1, 0, 0, 0]
   \<and> [0, 1, 0, 0, 0 :: int] ! 1 = 1
   \<and> circ_bs [0, 1, 0, 0, 0 :: int] 1 = Inr (- 1)"
proof -
  have r: "rotated [0, 0, 0, 0, 1 :: int] 3 = [0, 1, 0, 0, 0]"
    by (simp add: rotated_append)
  have v: "circ_bs [0, 1, 0, 0, 0 :: int] 1 = Inr (- 1)"
    by (simp add: run_simps circ_loop.simps)
  show ?thesis using r v by simp
qed

end
